theory Spec2Isabelle
  imports Complex_Main
begin

section \<open>The snake game of snake.py\<close>

text \<open>
  The program is one script: constants, the class \<open>Direction\<close>, three helper functions
  and a polling loop over global variables. The globals become the record \<open>game\<close>, one
  pass through the body of \<open>while running:\<close> becomes \<open>iteration\<close>, and everything the
  pass reads from outside (the polled events, the clock, the random draws) is an argument.
  Times are Python floats; only their order and sums matter here, so they are reals.
  Rendering calls are left out: they write to the screen and read the state only.
\<close>

subsection \<open>Constants\<close>

definition PARTS_AFTER_FOOD :: int where
  "PARTS_AFTER_FOOD = 3"

definition INITIAL_LENGTH :: nat where
  "INITIAL_LENGTH = 4"

definition FPS :: real where
  "FPS = 16"

definition interval :: real where
  "interval = 1 / FPS"

subsection \<open>Direction\<close>

text \<open>\<open>class Direction(enum.IntEnum)\<close>: four members with the integer values 1 to 4.\<close>

datatype Direction = UP | RIGHT | DOWN | LEFT

fun Direction_value :: "Direction \<Rightarrow> int" where
  "Direction_value UP = 1"
| "Direction_value RIGHT = 2"
| "Direction_value DOWN = 3"
| "Direction_value LEFT = 4"

text \<open>\<open>return min(direction1, direction2) + 2 == max(direction1, direction2)\<close>\<close>

definition reversed :: "Direction \<Rightarrow> Direction \<Rightarrow> bool" where
  "reversed direction1 direction2 =
     (min (Direction_value direction1) (Direction_value direction2) + 2
        = max (Direction_value direction1) (Direction_value direction2))"

type_synonym cell = "int \<times> int"

text \<open>
  \<open>Direction.vector\<close>. Its last branch (\<open>return None\<close>) is taken for no member of the
  enumeration, and the loop passes members only.
\<close>

fun vector :: "Direction \<Rightarrow> cell" where
  "vector UP = (0, -1)"
| "vector RIGHT = (1, 0)"
| "vector DOWN = (0, 1)"
| "vector LEFT = (-1, 0)"

definition add_vectors :: "cell \<Rightarrow> cell \<Rightarrow> cell" where
  "add_vectors vec1 vec2 = (fst vec1 + fst vec2, snd vec1 + snd vec2)"

subsection \<open>State, events and errors\<close>

text \<open>The exceptions the loop can raise; none is caught anywhere in the script.\<close>

datatype error = ValueError | IndexError | ZeroDivisionError

text \<open>\<open>world_width = width // SCALE\<close> and \<open>world_height = height // SCALE\<close> of a screen.\<close>

record world =
  world_width :: nat
  world_height :: nat

record game =
  snake :: "cell list"
  spare_parts :: int
  direction :: "Direction list"
  last_direction :: Direction
  food :: "cell set"
  next_food :: real
  next_frame :: real
  running :: bool
  paused :: bool

text \<open>
  The keys the loop tells apart, and the event types. \<open>K_other\<close> is any other key,
  \<open>OTHER\<close> any event that is not QUIT, KEYDOWN or KEYUP.
\<close>

datatype key = K_ESCAPE | K_SPACE | K_w | K_a | K_s | K_d | K_other

datatype event = QUIT | KEYDOWN key | KEYUP key | OTHER

text \<open>
  What the handler of the space key reads from outside, in the order of the source:
  \<open>time.time()\<close> and \<open>get_next_food_time(next_food_range)\<close> of line 113, and
  \<open>time.time()\<close> of line 114.
\<close>

record readings =
  time_113 :: real
  food_time_113 :: real
  time_114 :: real

text \<open>
  What one pass of the loop reads from outside: the events of \<open>pygame.event.get()\<close>, each
  with the readings its handler would take, \<open>current = time.time()\<close>, the two
  \<open>random.randint\<close> draws of line 156 and \<open>get_next_food_time\<close> of line 157.
\<close>

record input =
  events :: "(event \<times> readings) list"
  current :: real
  food_x :: int
  food_y :: int
  food_time :: real

text \<open>The module-level initialisation, lines 77 to 90; the two clock readings are arguments.\<close>

definition initial :: "world \<Rightarrow> real \<Rightarrow> real \<Rightarrow> game" where
  "initial w t_food t_frame =
     \<lparr> snake = map (\<lambda>y. (int (world_width w div 2), int (world_height w div 2) + int y))
                   [0 ..< INITIAL_LENGTH],
       spare_parts = 0,
       direction = [],
       last_direction = UP,
       food = {},
       next_food = t_food,
       next_frame = t_frame,
       running = True,
       paused = False \<rparr>"

subsection \<open>Event handling, lines 96 to 145\<close>

text \<open>
  \<open>direction.remove(d)\<close> followed by \<open>if len(direction) == 0: last_direction = d\<close>.
  \<open>list.remove\<close> deletes the first occurrence and raises ValueError when there is none.
\<close>

definition release :: "Direction \<Rightarrow> game \<Rightarrow> error + game" where
  "release d g =
     (if d \<in> set (direction g)
      then let ds = remove1 d (direction g)
           in Inr (g\<lparr>direction := ds,
                     last_direction := (if length ds = 0 then d else last_direction g)\<rparr>)
      else Inl ValueError)"

text \<open>
  One event. The boolean of the result says whether the handler left the \<open>for\<close> loop
  with \<open>break\<close>.
\<close>

fun handle_event :: "readings \<Rightarrow> event \<Rightarrow> game \<Rightarrow> error + (bool \<times> game)" where
  "handle_event r QUIT g = Inr (True, g\<lparr>running := False, paused := True\<rparr>)"
| "handle_event r (KEYDOWN K_ESCAPE) g = Inr (True, g\<lparr>running := False, paused := True\<rparr>)"
| "handle_event r (KEYDOWN K_SPACE) g =
     Inr (False, g\<lparr>paused := \<not> paused g,
                    next_food := time_113 r + food_time_113 r,
                    next_frame := time_114 r\<rparr>)"
| "handle_event r (KEYDOWN K_w) g = Inr (False, g\<lparr>direction := direction g @ [UP]\<rparr>)"
| "handle_event r (KEYDOWN K_a) g = Inr (False, g\<lparr>direction := direction g @ [LEFT]\<rparr>)"
| "handle_event r (KEYDOWN K_s) g = Inr (False, g\<lparr>direction := direction g @ [DOWN]\<rparr>)"
| "handle_event r (KEYDOWN K_d) g = Inr (False, g\<lparr>direction := direction g @ [RIGHT]\<rparr>)"
| "handle_event r (KEYDOWN K_other) g = Inr (False, g)"
| "handle_event r (KEYUP K_w) g = map_sum id (Pair False) (release UP g)"
| "handle_event r (KEYUP K_a) g = map_sum id (Pair False) (release LEFT g)"
| "handle_event r (KEYUP K_s) g = map_sum id (Pair False) (release DOWN g)"
| "handle_event r (KEYUP K_d) g = map_sum id (Pair False) (release RIGHT g)"
| "handle_event r (KEYUP K_ESCAPE) g = Inr (False, g)"
| "handle_event r (KEYUP K_SPACE) g = Inr (False, g)"
| "handle_event r (KEYUP K_other) g = Inr (False, g)"
| "handle_event r OTHER g = Inr (False, g)"

text \<open>\<open>for event in pygame.event.get():\<close>, stopping at a \<open>break\<close> or an exception.\<close>

fun handle_events :: "(event \<times> readings) list \<Rightarrow> game \<Rightarrow> error + game" where
  "handle_events [] g = Inr g"
| "handle_events ((e, r) # es) g =
     (case handle_event r e g of
        Inl err \<Rightarrow> Inl err
      | Inr (stop, g') \<Rightarrow> if stop then Inr g' else handle_events es g')"

subsection \<open>The snake update, lines 168 to 192\<close>

text \<open>Line 168: \<open>last_direction if len(direction) == 0 else direction[-1]\<close>.\<close>

definition current_direction :: "game \<Rightarrow> Direction" where
  "current_direction g =
     (if length (direction g) = 0 then last_direction g else last (direction g))"

text \<open>
  Lines 171 and 172: \<open>for index in range(len(snake) - 1, 0, -1): snake[index] = snake[index - 1]\<close>.
  \<open>shift_from n\<close> runs the loop for \<open>index = n, n - 1, ..., 1\<close>.
\<close>

fun shift_from :: "nat \<Rightarrow> cell list \<Rightarrow> cell list" where
  "shift_from 0 xs = xs"
| "shift_from (Suc i) xs = shift_from i (xs[Suc i := xs ! i])"

record advance_result =
  alive :: bool
  body :: "cell list"
  spare :: int

text \<open>
  Lines 168 to 187 on the body and the spare parts. \<open>snake[-1]\<close> raises IndexError on an
  empty list; the count of line 177 is taken before the modulo of line 182, which raises
  ZeroDivisionError for a world without cells; on a collision the pass ends with the
  shifted body and the spare parts as they were.
\<close>

definition advance :: "world \<Rightarrow> Direction \<Rightarrow> cell list \<Rightarrow> int \<Rightarrow> error + advance_result" where
  "advance w d snake0 spare0 =
     (if snake0 = [] then Inl IndexError
      else
        let last_body = last snake0;
            shifted = shift_from (length snake0 - 1) snake0;
            moved = shifted[0 := add_vectors (shifted ! 0) (vector d)]
        in if count_list moved (moved ! 0) > 1
           then Inr \<lparr>alive = False, body = moved, spare = spare0\<rparr>
           else if world_width w = 0 \<or> world_height w = 0 then Inl ZeroDivisionError
           else
             let looped = moved[0 := (fst (moved ! 0) mod int (world_width w),
                                      snd (moved ! 0) mod int (world_height w))]
             in if spare0 > 0
                then Inr \<lparr>alive = True, body = looped @ [last_body], spare = spare0 - 1\<rparr>
                else Inr \<lparr>alive = True, body = looped, spare = spare0\<rparr>)"

text \<open>Lines 190 to 192: \<open>if snake[0] in food: spare_parts += PARTS_AFTER_FOOD; food.remove(snake[0])\<close>.\<close>

definition eat :: "game \<Rightarrow> game" where
  "eat g =
     (if snake g ! 0 \<in> food g
      then g\<lparr>spare_parts := spare_parts g + PARTS_AFTER_FOOD,
              food := food g - {snake g ! 0}\<rparr>
      else g)"

definition update_snake :: "world \<Rightarrow> game \<Rightarrow> error + game" where
  "update_snake w g =
     (case advance w (current_direction g) (snake g) (spare_parts g) of
        Inl err \<Rightarrow> Inl err
      | Inr res \<Rightarrow>
          if alive res
          then Inr (eat (g\<lparr>snake := body res, spare_parts := spare res\<rparr>))
          else Inr (g\<lparr>snake := body res, running := False\<rparr>))"

subsection \<open>One pass of the loop, and the loop\<close>

text \<open>Lines 155 to 157.\<close>

definition spawn_food :: "input \<Rightarrow> game \<Rightarrow> game" where
  "spawn_food inp g =
     (if current inp \<ge> next_food g
      then g\<lparr>food := insert (food_x inp, food_y inp) (food g),
              next_food := next_food g + food_time inp\<rparr>
      else g)"

text \<open>The body of \<open>while running:\<close>, lines 96 to 192, rendering apart.\<close>

definition iteration :: "world \<Rightarrow> input \<Rightarrow> game \<Rightarrow> error + game" where
  "iteration w inp g =
     (case handle_events (events inp) g of
        Inl err \<Rightarrow> Inl err
      | Inr g1 \<Rightarrow>
          if paused g1 then Inr g1
          else
            let g2 = spawn_food inp g1
            in if current inp < next_frame g2 then Inr g2
               else update_snake w (g2\<lparr>next_frame := next_frame g2 + interval\<rparr>))"

text \<open>
  \<open>while running:\<close> over the inputs of successive passes. The loop ends when
  \<open>running\<close> is false or an exception escapes; a list of inputs that runs out gives the
  state reached so far.
\<close>

fun run :: "world \<Rightarrow> game \<Rightarrow> input list \<Rightarrow> error + game" where
  "run w g [] = Inr g"
| "run w g (inp # inps) =
     (if running g
      then (case iteration w inp g of Inl err \<Rightarrow> Inl err | Inr g' \<Rightarrow> run w g' inps)
      else Inr g)"

text \<open>The draws of \<open>random.randint(0, world_width)\<close> and \<open>random.randint(0, world_height)\<close>.\<close>

definition randint_ok :: "world \<Rightarrow> input \<Rightarrow> bool" where
  "randint_ok w inp =
     (0 \<le> food_x inp \<and> food_x inp \<le> int (world_width w) \<and>
      0 \<le> food_y inp \<and> food_y inp \<le> int (world_height w))"

definition in_grid :: "world \<Rightarrow> cell \<Rightarrow> bool" where
  "in_grid w c =
     (0 \<le> fst c \<and> fst c < int (world_width w) \<and> 0 \<le> snd c \<and> snd c < int (world_height w))"

subsection \<open>Auxiliary notions and fixed inputs\<close>

text \<open>The head after line 174, and the head after line 182.\<close>

definition moved_head :: "Direction \<Rightarrow> cell list \<Rightarrow> cell" where
  "moved_head d s = add_vectors (s ! 0) (vector d)"

definition looped_head :: "world \<Rightarrow> Direction \<Rightarrow> cell list \<Rightarrow> cell" where
  "looped_head w d s =
     (fst (moved_head d s) mod int (world_width w), snd (moved_head d s) mod int (world_height w))"

text \<open>A screen of 128 by 128 pixels gives a world of 8 by 8 cells.\<close>

definition world_8x8 :: world where
  "world_8x8 = \<lparr>world_width = 8, world_height = 8\<rparr>"

text \<open>A snake about to step onto the food at (6, 5).\<close>

definition game_before_food :: game where
  "game_before_food =
     (initial world_8x8 0 0)\<lparr>snake := [(5, 5), (4, 5), (3, 5)],
                              last_direction := RIGHT,
                              food := {(6, 5), (2, 2)}\<rparr>"

text \<open>The direction a movement key stands for in lines 116 to 145.\<close>

fun key_direction :: "key \<Rightarrow> Direction option" where
  "key_direction K_w = Some UP"
| "key_direction K_a = Some LEFT"
| "key_direction K_s = Some DOWN"
| "key_direction K_d = Some RIGHT"
| "key_direction _ = None"

text \<open>Events of type KEYDOWN or KEYUP.\<close>

fun key_event :: "event \<Rightarrow> bool" where
  "key_event (KEYDOWN k) = True"
| "key_event (KEYUP k) = True"
| "key_event _ = False"


text \<open>Readings for events whose handler takes none.\<close>

definition no_readings :: readings where
  "no_readings = \<lparr>time_113 = 0, food_time_113 = 1, time_114 = 0\<rparr>"

text \<open>The initial state with the key A held.\<close>

definition game_left_held :: game where
  "game_left_held = (initial world_8x8 0 0)\<lparr>direction := [LEFT]\<rparr>"

text \<open>A first pass at time 0 with no events; the food drawn is the cell (3, 3).\<close>

definition first_input :: input where
  "first_input = \<lparr>events = [], current = 0, food_x = 3, food_y = 3, food_time = 3 / 2\<rparr>"

text \<open>First passes that draw the food cell in front of the head, and on the edge x = 8.\<close>

definition eating_input :: input where
  "eating_input = \<lparr>events = [], current = 0, food_x = 4, food_y = 3, food_time = 3 / 2\<rparr>"

definition edge_food_input :: input where
  "edge_food_input = \<lparr>events = [], current = 0, food_x = 8, food_y = 3, food_time = 3 / 2\<rparr>"

text \<open>A pass one frame later, with no food due.\<close>

definition next_frame_input :: input where
  "next_frame_input = \<lparr>events = [], current = 1 / 16, food_x = 0, food_y = 0, food_time = 1\<rparr>"

text \<open>Cells \<open>random.randint\<close> can draw and the modulo of line 182 cannot give.\<close>

definition beyond_grid :: "world \<Rightarrow> cell \<Rightarrow> bool" where
  "beyond_grid w c = (fst c = int (world_width w) \<or> snd c = int (world_height w))"

text \<open>A pass at a given time with given events, none of them the space key.\<close>

definition pass_at :: "real \<Rightarrow> event list \<Rightarrow> input" where
  "pass_at t es =
     \<lparr>events = map (\<lambda>e. (e, no_readings)) es, current = t,
      food_x = 4, food_y = 3, food_time = 4\<rparr>"

text \<open>
  Eight frames of a game: the snake eats the food in front of it, turns left (A), grows to
  seven cells, goes down one cell at the left edge (S pressed and released), crosses the
  edge leftwards and turns up (W). The ninth frame turns right (D), towards the edge.
\<close>

definition crossing_inputs :: "input list" where
  "crossing_inputs =
     [pass_at 0 [], pass_at (1 / 16) [KEYDOWN K_a], pass_at (2 / 16) [], pass_at (3 / 16) [],
      pass_at (4 / 16) [], pass_at (5 / 16) [KEYDOWN K_s], pass_at (6 / 16) [KEYUP K_s],
      pass_at (7 / 16) [KEYDOWN K_w]]"

definition game_at_edge :: game where
  "game_at_edge =
     (initial world_8x8 0 0)\<lparr>snake := [(7, 3), (7, 4), (0, 4), (0, 3), (1, 3), (2, 3), (3, 3)],
                              direction := [LEFT, UP],
                              next_food := 4,
                              next_frame := 1 / 2\<rparr>"

definition game_after_crossing :: game where
  "game_after_crossing =
     game_at_edge\<lparr>snake := [(0, 3), (7, 3), (7, 4), (0, 4), (0, 3), (1, 3), (2, 3)],
                   direction := [LEFT, UP, RIGHT],
                   next_frame := 9 / 16\<rparr>"





text \<open>
  The history of key events, for the input buffer. \<open>pressed\<close> and \<open>released\<close> give the
  direction a key event presses or releases; \<open>presses\<close> and \<open>releases\<close> list them in
  the order of the events.
\<close>

fun pressed :: "event \<Rightarrow> Direction option" where
  "pressed (KEYDOWN k) = key_direction k"
| "pressed _ = None"

fun released :: "event \<Rightarrow> Direction option" where
  "released (KEYUP k) = key_direction k"
| "released _ = None"

definition presses :: "event list \<Rightarrow> Direction list" where
  "presses es = List.map_filter pressed es"

definition releases :: "event list \<Rightarrow> Direction list" where
  "releases es = List.map_filter released es"

text \<open>
  A direction is held after a history when the last event about it is a press.
\<close>

definition is_held :: "Direction \<Rightarrow> event list \<Rightarrow> bool" where
  "is_held d es =
     (let about = filter (\<lambda>e. pressed e = Some d \<or> released e = Some d) es
      in about \<noteq> [] \<and> pressed (last about) = Some d)"

text \<open>
  Events that leave the \<open>for\<close> loop, and the discipline of a keyboard: a key goes down
  only when it is up and up only when it is down. \<open>disciplined_from h es\<close> says that the
  events \<open>es\<close>, coming after the history \<open>h\<close>, keep to it and do not leave the loop.
\<close>

fun breaks :: "event \<Rightarrow> bool" where
  "breaks QUIT = True"
| "breaks (KEYDOWN K_ESCAPE) = True"
| "breaks _ = False"

definition in_order :: "event list \<Rightarrow> event \<Rightarrow> bool" where
  "in_order h e =
     (case pressed e of
        Some d \<Rightarrow> \<not> is_held d h
      | None \<Rightarrow> (case released e of Some d \<Rightarrow> is_held d h | None \<Rightarrow> \<not> breaks e))"

fun disciplined_from :: "event list \<Rightarrow> event list \<Rightarrow> bool" where
  "disciplined_from h [] = True"
| "disciplined_from h (e # es) = (in_order h e \<and> disciplined_from (h @ [e]) es)"

text \<open>
  The effective direction in the words of the specification, read off the history of
  events alone: the most recently pressed direction that is still held, and, when none
  is held, the direction released last (the initial one when nothing was released yet).
\<close>

definition spec_effective :: "event list \<Rightarrow> Direction \<Rightarrow> Direction" where
  "spec_effective es d0 =
     (let held = filter (\<lambda>d. is_held d es) (presses es)
      in if held \<noteq> [] then last held
         else if releases es = [] then d0 else last (releases es))"

text \<open>The events the loop polled over a sequence of passes.\<close>

definition key_history :: "input list \<Rightarrow> event list" where
  "key_history inps = concat (map (\<lambda>inp. map fst (events inp)) inps)"

text \<open>
  The held list follows a history when it lists the held directions in the order of
  their latest presses, and, when it is empty, \<open>last_direction\<close> is the direction
  released last.
\<close>

definition tracks :: "event list \<Rightarrow> Direction \<Rightarrow> game \<Rightarrow> bool" where
  "tracks h d0 g =
     (direction g = remdups (filter (\<lambda>d. is_held d h) (presses h))
      \<and> (direction g = [] \<longrightarrow>
           last_direction g = (if releases h = [] then d0 else last (releases h))))"


section \<open>Properties\<close>

subsection \<open>The shift loop and the shape of advance\<close>

lemma shift_from_eq:
  "n < length xs \<Longrightarrow> shift_from n xs = xs ! 0 # take n xs @ drop (Suc n) xs"
proof (induction n arbitrary: xs)
  case 0
  then show ?case by (cases xs) simp_all
next
  case (Suc n)
  let ?ys = "xs[Suc n := xs ! n]"
  from Suc.prems have n: "n < length ?ys" by simp
  have "shift_from (Suc n) xs = shift_from n ?ys" by simp
  also have "\<dots> = ?ys ! 0 # take n ?ys @ drop (Suc n) ?ys"
    using Suc.IH [OF n] .
  also have "?ys ! 0 = xs ! 0" by simp
  also have "take n ?ys = take n xs" by simp
  also have "drop (Suc n) ?ys = xs ! n # drop (Suc (Suc n)) xs"
    using Suc.prems by (simp add: drop_update_swap Cons_nth_drop_Suc [symmetric] del: drop_Suc_Cons)
  also have "take n xs @ xs ! n # drop (Suc (Suc n)) xs = take (Suc n) xs @ drop (Suc (Suc n)) xs"
    using Suc.prems by (simp add: take_Suc_conv_app_nth)
  finally show ?case .
qed

lemma shift_from_last:
  "xs \<noteq> [] \<Longrightarrow> shift_from (length xs - 1) xs = xs ! 0 # butlast xs"
  by (simp add: shift_from_eq butlast_conv_take)

text \<open>
  The update of lines 168 to 187 in closed form: the shifted body is the new head in front
  of the old body without its last cell, and the count of line 177 asks whether the head,
  not yet reduced modulo the world, is among those cells.
\<close>

lemma advance_eq:
  "advance w d s sp =
     (if s = [] then Inl IndexError
      else if moved_head d s \<in> set (butlast s)
      then Inr \<lparr>alive = False, body = moved_head d s # butlast s, spare = sp\<rparr>
      else if world_width w = 0 \<or> world_height w = 0 then Inl ZeroDivisionError
      else if sp > 0
      then Inr \<lparr>alive = True, body = looped_head w d s # butlast s @ [last s], spare = sp - 1\<rparr>
      else Inr \<lparr>alive = True, body = looped_head w d s # butlast s, spare = sp\<rparr>)"
proof (cases "s = []")
  case True
  then show ?thesis by (simp add: advance_def)
next
  case False
  have sh: "shift_from (length s - 1) s = s ! 0 # butlast s"
    using False by (rule shift_from_last)
  show ?thesis
    unfolding advance_def sh Let_def
    using False
    by (simp add: count_list_0_iff moved_head_def looped_head_def)
qed

subsection \<open>Geometry\<close>

text \<open>
  C7. \<open>Direction.reversed\<close> is true exactly for the unordered pairs {UP, DOWN} and
  {LEFT, RIGHT}; it is symmetric in its arguments and false on every pair of equal
  directions.
\<close>

theorem reversed_exactly_opposite_pairs:
  "(reversed d1 d2 \<longleftrightarrow> {d1, d2} = {UP, DOWN} \<or> {d1, d2} = {LEFT, RIGHT})
   \<and> reversed d1 d2 = reversed d2 d1
   \<and> \<not> reversed d d"
proof -
  have a: "reversed d1 d2 \<longleftrightarrow> {d1, d2} = {UP, DOWN} \<or> {d1, d2} = {LEFT, RIGHT}"
    by (cases d1; cases d2) (auto simp: reversed_def)
  have b: "reversed d1 d2 = reversed d2 d1"
    by (simp add: reversed_def min.commute max.commute)
  have c: "\<not> reversed d d"
    by (simp add: reversed_def)
  from a b c show ?thesis by blast
qed

subsection \<open>The snake update\<close>

text \<open>
  C8. When the update leaves the snake alive, a step LEFT from a head with x = 0 puts the
  head at x = world_width - 1, a step RIGHT from x = world_width - 1 puts it at x = 0, a
  step UP from y = 0 puts it at y = world_height - 1 and a step DOWN from
  y = world_height - 1 puts it at y = 0.
\<close>

theorem advance_wraps_at_edges:
  assumes "advance w d s sp = Inr res" and "alive res"
  shows "(d = LEFT \<and> fst (s ! 0) = 0 \<longrightarrow> fst (body res ! 0) = int (world_width w) - 1)
       \<and> (d = RIGHT \<and> fst (s ! 0) = int (world_width w) - 1 \<longrightarrow> fst (body res ! 0) = 0)
       \<and> (d = UP \<and> snd (s ! 0) = 0 \<longrightarrow> snd (body res ! 0) = int (world_height w) - 1)
       \<and> (d = DOWN \<and> snd (s ! 0) = int (world_height w) - 1 \<longrightarrow> snd (body res ! 0) = 0)"
proof -
  from assms have pos: "0 < world_width w" "0 < world_height w"
    and hd: "body res ! 0 = looped_head w d s"
    by (auto simp: advance_eq split: if_splits)
  have l: "(- 1) mod int (world_width w) = int (world_width w) - 1"
    using pos(1) by (simp add: zmod_minus1)
  have u: "(- 1) mod int (world_height w) = int (world_height w) - 1"
    using pos(2) by (simp add: zmod_minus1)
  show ?thesis
    unfolding hd looped_head_def moved_head_def add_vectors_def
    using l u by auto
qed

theorem advance_wraps_at_edges_witness:
  "fst (body (projr (advance world_8x8 LEFT [(0, 3), (1, 3), (2, 3)] 0)) ! 0) = 7
   \<and> fst (body (projr (advance world_8x8 RIGHT [(7, 3), (6, 3), (5, 3)] 0)) ! 0) = 0
   \<and> snd (body (projr (advance world_8x8 UP [(3, 0), (3, 1), (3, 2)] 0)) ! 0) = 7
   \<and> snd (body (projr (advance world_8x8 DOWN [(3, 7), (3, 6), (3, 5)] 0)) ! 0) = 0"
proof -
  have l: "advance world_8x8 LEFT [(0, 3), (1, 3), (2, 3)] 0
             = Inr \<lparr>alive = True, body = [(7, 3), (0, 3), (1, 3)], spare = 0\<rparr>"
    by (simp add: advance_eq moved_head_def looped_head_def add_vectors_def world_8x8_def)
  have r: "advance world_8x8 RIGHT [(7, 3), (6, 3), (5, 3)] 0
             = Inr \<lparr>alive = True, body = [(0, 3), (7, 3), (6, 3)], spare = 0\<rparr>"
    by (simp add: advance_eq moved_head_def looped_head_def add_vectors_def world_8x8_def)
  have u: "advance world_8x8 UP [(3, 0), (3, 1), (3, 2)] 0
             = Inr \<lparr>alive = True, body = [(3, 7), (3, 0), (3, 1)], spare = 0\<rparr>"
    by (simp add: advance_eq moved_head_def looped_head_def add_vectors_def world_8x8_def)
  have d: "advance world_8x8 DOWN [(3, 7), (3, 6), (3, 5)] 0
             = Inr \<lparr>alive = True, body = [(3, 0), (3, 7), (3, 6)], spare = 0\<rparr>"
    by (simp add: advance_eq moved_head_def looped_head_def add_vectors_def world_8x8_def)
  show ?thesis
    unfolding l r u d
    using advance_wraps_at_edges [OF l] advance_wraps_at_edges [OF r]
      advance_wraps_at_edges [OF u] advance_wraps_at_edges [OF d]
    by (simp add: world_8x8_def)
qed

text \<open>
  C4, as the code has it. When the update leaves the snake alive, the body keeps its
  length if there were no spare parts, and is one cell longer, with one spare part fewer,
  if there were; when the update finds a collision, the pass ends before line 185: the
  body keeps its length and the spare parts their number, whatever it was.
\<close>

theorem advance_length:
  assumes "advance w d s sp = Inr res"
  shows "(alive res \<and> sp > 0 \<longrightarrow> length (body res) = length s + 1 \<and> spare res = sp - 1)
       \<and> (alive res \<and> \<not> sp > 0 \<longrightarrow> length (body res) = length s \<and> spare res = sp)
       \<and> (\<not> alive res \<longrightarrow> length (body res) = length s \<and> spare res = sp)"
  using assms by (auto simp: advance_eq split: if_splits)

theorem advance_length_witness:
  "length (body (projr (advance world_8x8 UP [(5, 5), (5, 6), (5, 7)] 1))) = 4
   \<and> spare (projr (advance world_8x8 UP [(5, 5), (5, 6), (5, 7)] 1)) = 0
   \<and> length (body (projr (advance world_8x8 UP [(5, 5), (5, 6), (5, 7)] 0))) = 3
   \<and> spare (projr (advance world_8x8 UP [(5, 5), (5, 6), (5, 7)] 0)) = 0
   \<and> length (body (projr (advance world_8x8 DOWN [(5, 5), (5, 6), (5, 7)] 1))) = 3
   \<and> spare (projr (advance world_8x8 DOWN [(5, 5), (5, 6), (5, 7)] 1)) = 1"
proof -
  have a: "advance world_8x8 UP [(5, 5), (5, 6), (5, 7)] 1
             = Inr \<lparr>alive = True, body = [(5, 4), (5, 5), (5, 6), (5, 7)], spare = 0\<rparr>"
    by (simp add: advance_eq moved_head_def looped_head_def add_vectors_def world_8x8_def)
  have b: "advance world_8x8 UP [(5, 5), (5, 6), (5, 7)] 0
             = Inr \<lparr>alive = True, body = [(5, 4), (5, 5), (5, 6)], spare = 0\<rparr>"
    by (simp add: advance_eq moved_head_def looped_head_def add_vectors_def world_8x8_def)
  have c: "advance world_8x8 DOWN [(5, 5), (5, 6), (5, 7)] 1
             = Inr \<lparr>alive = False, body = [(5, 6), (5, 5), (5, 6)], spare = 1\<rparr>"
    by (simp add: advance_eq moved_head_def add_vectors_def)
  show ?thesis
    unfolding a b c
    using advance_length [OF a] advance_length [OF b] advance_length [OF c]
    by simp
qed

text \<open>
  C4 as stated fails: the body [(5,5),(5,6),(5,7)] with one spare part, moving DOWN,
  runs into its second cell; the update ends with three cells, not four, and the spare
  part is still there.
\<close>

theorem advance_length_counterexample:
  "advance world_8x8 DOWN [(5, 5), (5, 6), (5, 7)] 1
     = Inr \<lparr>alive = False, body = [(5, 6), (5, 5), (5, 6)], spare = 1\<rparr>
   \<and> length [(5, 6), (5, 5), (5, 6) :: cell] \<noteq> length [(5, 5), (5, 6), (5, 7) :: cell] + 1"
  by (simp add: advance_eq moved_head_def add_vectors_def)

text \<open>
  C5. When the update leaves the snake alive and its new head is in the food set, the
  pass removes that cell and no other from the food set and adds 3 to the spare parts
  the update left.
\<close>

theorem update_snake_eats:
  assumes "advance w (current_direction g) (snake g) (spare_parts g) = Inr res"
    and "alive res"
    and "body res ! 0 \<in> food g"
  shows "update_snake w g =
           Inr (g\<lparr>snake := body res,
                   spare_parts := spare res + 3,
                   food := food g - {body res ! 0}\<rparr>)"
  using assms by (simp add: update_snake_def eat_def PARTS_AFTER_FOOD_def)

theorem update_snake_eats_witness:
  "update_snake world_8x8 game_before_food =
     Inr (game_before_food\<lparr>snake := [(6, 5), (5, 5), (4, 5)],
                            spare_parts := 3,
                            food := {(2, 2)}\<rparr>)"
proof -
  have a: "advance world_8x8 (current_direction game_before_food) (snake game_before_food)
             (spare_parts game_before_food)
           = Inr \<lparr>alive = True, body = [(6, 5), (5, 5), (4, 5)], spare = 0\<rparr>"
    by (simp add: advance_eq moved_head_def looped_head_def add_vectors_def world_8x8_def
        game_before_food_def initial_def current_direction_def)
  have f: "food game_before_food - {(6, 5)} = {(2, 2)}"
    by (auto simp: game_before_food_def)
  show ?thesis
    using update_snake_eats [OF a] by (simp add: f) (simp add: game_before_food_def)
qed

subsection \<open>The branches of one pass\<close>

lemma update_snake_cases:
  assumes "update_snake w g = Inr g'"
  obtains res where "advance w (current_direction g) (snake g) (spare_parts g) = Inr res"
      and "alive res" and "g' = eat (g\<lparr>snake := body res, spare_parts := spare res\<rparr>)"
  | res where "advance w (current_direction g) (snake g) (spare_parts g) = Inr res"
      and "\<not> alive res" and "g' = g\<lparr>snake := body res, running := False\<rparr>"
proof (cases "advance w (current_direction g) (snake g) (spare_parts g)")
  case (Inl err)
  with assms show ?thesis by (simp add: update_snake_def)
next
  case (Inr res)
  show ?thesis
  proof (cases "alive res")
    case True
    with assms Inr have "g' = eat (g\<lparr>snake := body res, spare_parts := spare res\<rparr>)"
      by (simp add: update_snake_def)
    with that(1) Inr True show ?thesis by blast
  next
    case False
    with assms Inr have "g' = g\<lparr>snake := body res, running := False\<rparr>"
      by (simp add: update_snake_def)
    with that(2) Inr False show ?thesis by blast
  qed
qed

lemma iteration_cases:
  assumes "iteration w inp g = Inr g'"
  obtains g1 where "handle_events (events inp) g = Inr g1" and "g' = g1"
  | g1 where "handle_events (events inp) g = Inr g1" and "g' = spawn_food inp g1"
  | g1 where "handle_events (events inp) g = Inr g1"
      and "update_snake w ((spawn_food inp g1)\<lparr>next_frame := next_frame (spawn_food inp g1) + interval\<rparr>) = Inr g'"
proof (cases "handle_events (events inp) g")
  case (Inl err)
  with assms show ?thesis by (simp add: iteration_def)
next
  case (Inr g1)
  show ?thesis
  proof (cases "paused g1")
    case True
    with assms Inr have "g' = g1" by (simp add: iteration_def)
    with that(1) Inr show ?thesis by blast
  next
    case np: False
    show ?thesis
    proof (cases "current inp < next_frame (spawn_food inp g1)")
      case True
      with assms Inr np have "g' = spawn_food inp g1" by (simp add: iteration_def Let_def)
      with that(2) Inr show ?thesis by blast
    next
      case False
      with assms Inr np have
        "update_snake w ((spawn_food inp g1)\<lparr>next_frame := next_frame (spawn_food inp g1) + interval\<rparr>) = Inr g'"
        by (simp add: iteration_def Let_def)
      with that(3) Inr show ?thesis by blast
    qed
  qed
qed

subsection \<open>What event handling leaves alone\<close>

lemma handle_event_keeps:
  "handle_event r e g = Inr (b, g') \<Longrightarrow>
     snake g' = snake g \<and> spare_parts g' = spare_parts g \<and> food g' = food g"
  by (induction r e g rule: handle_event.induct)
     (auto simp: release_def Let_def split: if_splits)

lemma handle_events_keeps:
  "handle_events es g = Inr g' \<Longrightarrow>
     snake g' = snake g \<and> spare_parts g' = spare_parts g \<and> food g' = food g"
proof (induction es arbitrary: g)
  case Nil
  then show ?case by simp
next
  case (Cons a es)
  obtain e r where a: "a = (e, r)" by (cases a)
  from Cons.prems obtain b g1 where h: "handle_event r e g = Inr (b, g1)"
    and rest: "(if b then Inr g1 else handle_events es g1) = Inr g'"
    by (auto simp: a split: sum.splits)
  show ?case
  proof (cases b)
    case True
    with rest have "g' = g1" by simp
    with handle_event_keeps [OF h] show ?thesis by simp
  next
    case False
    with rest have "handle_events es g1 = Inr g'" by simp
    from Cons.IH [OF this] handle_event_keeps [OF h] show ?thesis by simp
  qed
qed




subsection \<open>Events\<close>




subsection \<open>The input buffer\<close>

lemma handle_event_no_key:
  "\<not> key_event e \<Longrightarrow> handle_event r e g = Inr (b, g') \<Longrightarrow>
     direction g' = direction g \<and> last_direction g' = last_direction g"
  by (induction r e g rule: handle_event.induct) auto

lemma handle_events_no_key:
  "\<forall>(e, r) \<in> set es. \<not> key_event e \<Longrightarrow> handle_events es g = Inr g' \<Longrightarrow>
     direction g' = direction g \<and> last_direction g' = last_direction g"
proof (induction es arbitrary: g)
  case Nil
  then show ?case by simp
next
  case (Cons a es)
  obtain e r where a: "a = (e, r)" by (cases a)
  from Cons.prems(1) have e: "\<not> key_event e" and es: "\<forall>(e, r) \<in> set es. \<not> key_event e"
    by (auto simp: a)
  from Cons.prems(2) obtain b g1 where h: "handle_event r e g = Inr (b, g1)"
    and rest: "(if b then Inr g1 else handle_events es g1) = Inr g'"
    by (auto simp: a split: sum.splits)
  show ?case
  proof (cases b)
    case True
    with rest have "g' = g1" by simp
    with handle_event_no_key [OF e h] show ?thesis by simp
  next
    case False
    with rest have "handle_events es g1 = Inr g'" by simp
    from Cons.IH [OF es this] handle_event_no_key [OF e h] show ?thesis by simp
  qed
qed

lemma spawn_food_direction:
  "direction (spawn_food inp g) = direction g \<and> last_direction (spawn_food inp g) = last_direction g"
  by (simp add: spawn_food_def)

lemma update_snake_direction:
  "update_snake w g = Inr g' \<Longrightarrow> direction g' = direction g \<and> last_direction g' = last_direction g"
  by (auto simp: update_snake_def eat_def split: sum.splits if_splits)

lemma iteration_no_key:
  assumes "\<forall>(e, r) \<in> set (events inp). \<not> key_event e" and "iteration w inp g = Inr g'"
  shows "direction g' = direction g \<and> last_direction g' = last_direction g"
proof -
  from assms(2) obtain g1 where h: "handle_events (events inp) g = Inr g1"
    by (auto simp: iteration_def split: sum.splits)
  note k = handle_events_no_key [OF assms(1) h]
  show ?thesis
  proof (cases "paused g1")
    case True
    with assms(2) h have "g' = g1" by (simp add: iteration_def)
    with k show ?thesis by simp
  next
    case False
    show ?thesis
    proof (cases "current inp < next_frame (spawn_food inp g1)")
      case True
      with assms(2) h False have "g' = spawn_food inp g1" by (simp add: iteration_def Let_def)
      with k spawn_food_direction [of inp g1] show ?thesis by simp
    next
      case nf: False
      with assms(2) h False have
        "update_snake w ((spawn_food inp g1)\<lparr>next_frame := next_frame (spawn_food inp g1) + interval\<rparr>) = Inr g'"
        by (simp add: iteration_def Let_def)
      from update_snake_direction [OF this] k spawn_food_direction [of inp g1]
      show ?thesis by simp
    qed
  qed
qed

lemma press_press_release:
  assumes "RIGHT \<notin> set (direction g)"
  shows "handle_events [(KEYDOWN K_w, r1), (KEYDOWN K_d, r2), (KEYUP K_d, r3)] g
           = Inr (g\<lparr>direction := direction g @ [UP]\<rparr>)"
  using assms by (simp add: release_def remove1_append)

lemma release_last:
  assumes "key_direction k = Some d" and "handle_event r (KEYUP k) g = Inr (b, g')"
    and "direction g' = []"
  shows "last_direction g' = d"
  using assms by (cases k) (auto simp: release_def Let_def split: if_splits)

lemma presses_snoc:
  "presses (h @ [e]) = presses h @ (case pressed e of Some d \<Rightarrow> [d] | None \<Rightarrow> [])"
  by (auto simp: presses_def List.map_filter_def split: option.splits)

lemma releases_snoc:
  "releases (h @ [e]) = releases h @ (case released e of Some d \<Rightarrow> [d] | None \<Rightarrow> [])"
  by (auto simp: releases_def List.map_filter_def split: option.splits)

lemma is_held_snoc:
  "is_held d (h @ [e]) =
     (if pressed e = Some d then True else if released e = Some d then False else is_held d h)"
  by (cases e) (auto simp: is_held_def Let_def)

lemma is_held_pressed: "is_held d h \<Longrightarrow> d \<in> set (presses h)"
proof -
  assume a: "is_held d h"
  let ?xs = "filter (\<lambda>e. pressed e = Some d \<or> released e = Some d) h"
  from a have ne: "?xs \<noteq> []" and p: "pressed (last ?xs) = Some d"
    by (simp_all add: is_held_def Let_def)
  from ne have "last ?xs \<in> set ?xs" by (rule last_in_set)
  then have "last ?xs \<in> set h" by simp
  with p show ?thesis
    by (force simp: presses_def List.map_filter_def)
qed

lemma remdups_snoc: "remdups (xs @ [d]) = remdups (removeAll d xs) @ [d]"
  by (induction xs) auto

lemma last_remdups: "xs \<noteq> [] \<Longrightarrow> last (remdups xs) = last xs"
  by (induction xs) auto

lemma press_event:
  "key_direction k = Some d \<Longrightarrow>
     handle_event r (KEYDOWN k) g = Inr (False, g\<lparr>direction := direction g @ [d]\<rparr>)"
  by (cases k) auto

lemma release_event:
  "key_direction k = Some d \<Longrightarrow>
     handle_event r (KEYUP k) g = map_sum id (Pair False) (release d g)"
  by (cases k) auto

lemma other_event:
  assumes "pressed e = None" and "released e = None" and "\<not> breaks e"
  shows "\<exists>g'. handle_event r e g = Inr (False, g')
          \<and> direction g' = direction g \<and> last_direction g' = last_direction g"
  using assms
  by (induction r e g rule: handle_event.induct) auto


lemma removeAll_filter_or:
  "\<not> P d \<Longrightarrow> removeAll d (filter (\<lambda>x. x = d \<or> P x) xs) = filter P xs"
  by (induction xs) auto

lemma tracks_press:
  assumes t: "tracks h d0 g" and k: "key_direction k = Some d" and n: "\<not> is_held d h"
  shows "tracks (h @ [KEYDOWN k]) d0 (g\<lparr>direction := direction g @ [d]\<rparr>)"
proof -
  let ?P = "presses h"
  have held: "\<And>x. is_held x (h @ [KEYDOWN k]) = (x = d \<or> is_held x h)"
    using k by (auto simp: is_held_snoc)
  have "filter (\<lambda>x. is_held x (h @ [KEYDOWN k])) (presses (h @ [KEYDOWN k]))
          = filter (\<lambda>x. x = d \<or> is_held x h) ?P @ [d]"
    using k by (simp add: presses_snoc held)
  moreover have "removeAll d (filter (\<lambda>x. x = d \<or> is_held x h) ?P) = filter (\<lambda>x. is_held x h) ?P"
    using n by (rule removeAll_filter_or)
  ultimately have "remdups (filter (\<lambda>x. is_held x (h @ [KEYDOWN k])) (presses (h @ [KEYDOWN k])))
          = remdups (filter (\<lambda>x. is_held x h) ?P) @ [d]"
    by (simp add: remdups_snoc)
  with t show ?thesis by (simp add: tracks_def)
qed

lemma tracks_release:
  assumes t: "tracks h d0 g" and k: "key_direction k = Some d" and i: "is_held d h"
  shows "\<exists>g'. release d g = Inr g' \<and> tracks (h @ [KEYUP k]) d0 g'"
proof -
  let ?P = "presses h"
  from t have dir: "direction g = remdups (filter (\<lambda>x. is_held x h) ?P)"
    by (simp add: tracks_def)
  from is_held_pressed [OF i] i have mem: "d \<in> set (direction g)"
    by (simp add: dir)
  have dist: "distinct (direction g)" by (simp add: dir)
  have held: "\<And>x. is_held x (h @ [KEYUP k]) = (x \<noteq> d \<and> is_held x h)"
    using k by (auto simp: is_held_snoc)
  have "remove1 d (direction g) = filter (\<lambda>x. x \<noteq> d) (direction g)"
    using dist by (simp add: distinct_remove1_removeAll removeAll_filter_not_eq) metis
  also have "\<dots> = remdups (filter (\<lambda>x. x \<noteq> d) (filter (\<lambda>x. is_held x h) ?P))"
    by (simp add: dir remdups_filter)
  also have "\<dots> = remdups (filter (\<lambda>x. is_held x (h @ [KEYUP k])) (presses (h @ [KEYUP k])))"
    using k by (simp add: presses_snoc held conj_commute)
  finally have r: "remove1 d (direction g)
      = remdups (filter (\<lambda>x. is_held x (h @ [KEYUP k])) (presses (h @ [KEYUP k])))" .
  have rel: "releases (h @ [KEYUP k]) = releases h @ [d]"
    using k by (simp add: releases_snoc)
  let ?g' = "g\<lparr>direction := remove1 d (direction g),
               last_direction := (if length (remove1 d (direction g)) = 0 then d else last_direction g)\<rparr>"
  have "release d g = Inr ?g'" using mem by (simp add: release_def Let_def)
  moreover have "tracks (h @ [KEYUP k]) d0 ?g'"
    using r by (simp add: tracks_def rel)
  ultimately show ?thesis by blast
qed

lemma tracks_cong:
  "direction g' = direction g \<Longrightarrow> last_direction g' = last_direction g \<Longrightarrow>
     tracks h d0 g' = tracks h d0 g"
  by (simp add: tracks_def)

lemma tracks_other:
  assumes "tracks h d0 g" and "pressed e = None" and "released e = None"
  shows "tracks (h @ [e]) d0 g"
  using assms by (simp add: tracks_def presses_snoc releases_snoc is_held_snoc)

lemma tracks_event:
  assumes t: "tracks h d0 g" and o: "in_order h e"
  shows "\<exists>g'. handle_event r e g = Inr (False, g') \<and> tracks (h @ [e]) d0 g'"
proof (cases "pressed e")
  case (Some d)
  then obtain k where e: "e = KEYDOWN k" and k: "key_direction k = Some d"
    by (cases e) auto
  from o Some have "\<not> is_held d h" by (simp add: in_order_def)
  from tracks_press [OF t k this] press_event [OF k] show ?thesis
    by (simp add: e)
next
  case None
  show ?thesis
  proof (cases "released e")
    case (Some d)
    then obtain k where e: "e = KEYUP k" and k: "key_direction k = Some d"
      by (cases e) auto
    from o None Some have "is_held d h" by (simp add: in_order_def)
    from tracks_release [OF t k this] obtain g' where "release d g = Inr g'"
      and "tracks (h @ [KEYUP k]) d0 g'" by blast
    with release_event [OF k] show ?thesis by (simp add: e)
  next
    case rn: None
    from o None rn have "\<not> breaks e" by (simp add: in_order_def)
    from other_event [OF None rn this] obtain g' where h: "handle_event r e g = Inr (False, g')"
      and d: "direction g' = direction g" "last_direction g' = last_direction g" by blast
    from tracks_other [OF t None rn] tracks_cong [OF d] have "tracks (h @ [e]) d0 g'" by simp
    with h show ?thesis by blast
  qed
qed

lemma tracks_events:
  "tracks h d0 g \<Longrightarrow> disciplined_from h (map fst ers) \<Longrightarrow>
     \<exists>g'. handle_events ers g = Inr g' \<and> tracks (h @ map fst ers) d0 g'"
proof (induction ers arbitrary: h g)
  case Nil
  then show ?case by simp
next
  case (Cons a ers)
  obtain e r where a: "a = (e, r)" by (cases a)
  from Cons.prems(2) have o: "in_order h e" and rest: "disciplined_from (h @ [e]) (map fst ers)"
    by (simp_all add: a)
  from tracks_event [OF Cons.prems(1) o] obtain g1 where h1: "handle_event r e g = Inr (False, g1)"
    and t1: "tracks (h @ [e]) d0 g1" by blast
  from Cons.IH [OF t1 rest] obtain g' where "handle_events ers g1 = Inr g'"
    and "tracks ((h @ [e]) @ map fst ers) d0 g'" by blast
  with h1 show ?case by (simp add: a)
qed

lemma tracks_effective:
  assumes "tracks h d0 g"
  shows "current_direction g = spec_effective h d0"
proof -
  let ?xs = "filter (\<lambda>d. is_held d h) (presses h)"
  from assms have dir: "direction g = remdups ?xs" by (simp add: tracks_def)
  show ?thesis
  proof (cases "?xs = []")
    case True
    with assms dir show ?thesis
      by (simp add: tracks_def current_direction_def spec_effective_def)
  next
    case False
    then have "direction g \<noteq> []" by (simp add: dir)
    with False last_remdups [OF False] show ?thesis
      by (simp add: current_direction_def spec_effective_def Let_def dir)
  qed
qed

lemma tracks_empty: "direction g = [] \<Longrightarrow> tracks [] (last_direction g) g"
  by (simp add: tracks_def presses_def releases_def)

lemma disciplined_from_append:
  "disciplined_from h (xs @ ys) = (disciplined_from h xs \<and> disciplined_from (h @ xs) ys)"
  by (induction xs arbitrary: h) auto

lemma tracks_iteration:
  assumes t: "tracks h d0 g" and d: "disciplined_from h (map fst (events inp))"
    and i: "iteration w inp g = Inr g'"
  shows "tracks (h @ map fst (events inp)) d0 g'"
proof -
  from tracks_events [OF t d] obtain g1 where h1: "handle_events (events inp) g = Inr g1"
    and t1: "tracks (h @ map fst (events inp)) d0 g1" by blast
  from i show ?thesis
  proof (cases rule: iteration_cases)
    case (1 g2)
    with h1 t1 show ?thesis by simp
  next
    case (2 g2)
    with h1 have "g' = spawn_food inp g1" by simp
    with t1 spawn_food_direction [of inp g1] show ?thesis by (simp add: tracks_def)
  next
    case (3 g2)
    with h1 have
      "update_snake w ((spawn_food inp g1)\<lparr>next_frame := next_frame (spawn_food inp g1) + interval\<rparr>) = Inr g'"
      by simp
    from update_snake_direction [OF this] spawn_food_direction [of inp g1] t1
    show ?thesis by (simp add: tracks_def)
  qed
qed

lemma tracks_run:
  "tracks h d0 g \<Longrightarrow> disciplined_from h (key_history inps) \<Longrightarrow>
     run w g inps = Inr g' \<Longrightarrow> running g' \<Longrightarrow> tracks (h @ key_history inps) d0 g'"
proof (induction inps arbitrary: h g)
  case Nil
  then show ?case by (simp add: key_history_def)
next
  case (Cons inp inps)
  have kh: "key_history (inp # inps) = map fst (events inp) @ key_history inps"
    by (simp add: key_history_def)
  from Cons.prems(2) have d1: "disciplined_from h (map fst (events inp))"
    and d2: "disciplined_from (h @ map fst (events inp)) (key_history inps)"
    by (simp_all add: kh disciplined_from_append)
  have r: "running g"
  proof (rule ccontr)
    assume "\<not> running g"
    with Cons.prems(3) have "g' = g" by simp
    with Cons.prems(4) \<open>\<not> running g\<close> show False by simp
  qed
  with Cons.prems(3) obtain g1 where it: "iteration w inp g = Inr g1"
    and rest: "run w g1 inps = Inr g'"
    by (auto split: sum.splits)
  from tracks_iteration [OF Cons.prems(1) d1 it]
  have "tracks (h @ map fst (events inp)) d0 g1" .
  from Cons.IH [OF this d2 rest Cons.prems(4)] show ?case by (simp add: kh)
qed


text \<open>
  C6. The direction of a tick is the last element of the held list when the list is not
  empty, and \<open>last_direction\<close> otherwise. Pressing W, pressing D and releasing D, with
  RIGHT not held before, leaves UP as that direction. When a release empties the held
  list, the direction is the released one, and it stays so over every pass of the loop
  that polls no key event. Read off the history of key events: after any events that
  keep to the discipline of a keyboard, handled from an empty held list, and in every
  running state the loop reaches from the initial state under such events, the direction
  of a tick is the most recently pressed direction that is still held, and the direction
  released last when none is held.
\<close>

theorem current_direction_latest_held_or_last_released:
  "current_direction g = (if direction g = [] then last_direction g else last (direction g))
   \<and> (RIGHT \<notin> set (direction g) \<longrightarrow>
        (\<exists>g'. handle_events [(KEYDOWN K_w, r1), (KEYDOWN K_d, r2), (KEYUP K_d, r3)] g = Inr g'
              \<and> current_direction g' = UP))
   \<and> (key_direction k = Some d \<and> handle_event r (KEYUP k) g = Inr (b, g1) \<and> direction g1 = []
        \<longrightarrow> current_direction g1 = d)
   \<and> ((\<forall>(e, r) \<in> set (events inp). \<not> key_event e) \<and> iteration w inp g = Inr g2
        \<longrightarrow> direction g2 = direction g \<and> last_direction g2 = last_direction g
            \<and> current_direction g2 = current_direction g)
   \<and> (direction g = [] \<and> disciplined_from [] (map fst ers) \<longrightarrow>
        (\<exists>g'. handle_events ers g = Inr g'
              \<and> current_direction g' = spec_effective (map fst ers) (last_direction g)))
   \<and> (run w (initial w t_food t_frame) inps = Inr g3 \<and> running g3
        \<and> disciplined_from [] (key_history inps) \<longrightarrow>
        current_direction g3 = spec_effective (key_history inps) UP)"
proof -
  have a: "current_direction g = (if direction g = [] then last_direction g else last (direction g))"
    by (simp add: current_direction_def)
  have b: "RIGHT \<notin> set (direction g) \<longrightarrow>
        (\<exists>g'. handle_events [(KEYDOWN K_w, r1), (KEYDOWN K_d, r2), (KEYUP K_d, r3)] g = Inr g'
              \<and> current_direction g' = UP)"
    using press_press_release [of g r1 r2 r3] by (simp add: current_direction_def)
  have c: "key_direction k = Some d \<and> handle_event r (KEYUP k) g = Inr (b, g1) \<and> direction g1 = []
        \<longrightarrow> current_direction g1 = d"
    using release_last [of k d r g b g1] by (simp add: current_direction_def)
  have d: "(\<forall>(e, r) \<in> set (events inp). \<not> key_event e) \<and> iteration w inp g = Inr g2
        \<longrightarrow> direction g2 = direction g \<and> last_direction g2 = last_direction g
            \<and> current_direction g2 = current_direction g"
    using iteration_no_key [of inp w g g2] by (simp add: current_direction_def)
  have e: "direction g = [] \<and> disciplined_from [] (map fst ers) \<longrightarrow>
        (\<exists>g'. handle_events ers g = Inr g'
              \<and> current_direction g' = spec_effective (map fst ers) (last_direction g))"
  proof
    assume p: "direction g = [] \<and> disciplined_from [] (map fst ers)"
    then have "tracks [] (last_direction g) g" by (simp add: tracks_empty)
    from tracks_events [OF this] p obtain g' where "handle_events ers g = Inr g'"
      and "tracks ([] @ map fst ers) (last_direction g) g'" by blast
    with tracks_effective [of "map fst ers" "last_direction g" g']
    show "\<exists>g'. handle_events ers g = Inr g'
              \<and> current_direction g' = spec_effective (map fst ers) (last_direction g)"
      by auto
  qed
  have f: "run w (initial w t_food t_frame) inps = Inr g3 \<and> running g3
        \<and> disciplined_from [] (key_history inps) \<longrightarrow>
        current_direction g3 = spec_effective (key_history inps) UP"
  proof
    assume p: "run w (initial w t_food t_frame) inps = Inr g3 \<and> running g3
        \<and> disciplined_from [] (key_history inps)"
    have "tracks [] UP (initial w t_food t_frame)"
      using tracks_empty [of "initial w t_food t_frame"] by (simp add: initial_def)
    from tracks_run [OF this, of inps w g3] p
    have "tracks (key_history inps) UP g3" by simp
    then show "current_direction g3 = spec_effective (key_history inps) UP"
      by (rule tracks_effective)
  qed
  from a b c d e f show ?thesis by blast
qed

lemmas eval_defs = iteration_def spawn_food_def update_snake_def eat_def advance_eq
  moved_head_def looped_head_def add_vectors_def world_8x8_def initial_def
  current_direction_def interval_def FPS_def INITIAL_LENGTH_def PARTS_AFTER_FOOD_def Let_def

lemma upt_4: "[0 ..< 4] = [0, 1, 2, 3]"
  by (simp add: upt_rec)

lemma first_iteration:
  "iteration world_8x8 first_input (initial world_8x8 0 0)
     = Inr ((initial world_8x8 0 0)\<lparr>snake := [(4, 3), (4, 4), (4, 5), (4, 6)],
                                      food := {(3, 3)},
                                      next_food := 3 / 2,
                                      next_frame := 1 / 16\<rparr>)"
  by (simp add: eval_defs first_input_def upt_4)

lemma run_crossing:
  "run world_8x8 (initial world_8x8 0 0) crossing_inputs = Inr game_at_edge"
  by (simp add: eval_defs crossing_inputs_def pass_at_def release_def game_at_edge_def upt_4)

lemmas history_defs = in_order_def is_held_def presses_def releases_def spec_effective_def
  key_history_def List.map_filter_def Let_def

theorem current_direction_witness:
  "current_direction (projr (handle_events
       [(KEYDOWN K_w, no_readings), (KEYDOWN K_d, no_readings), (KEYUP K_d, no_readings)]
       (initial world_8x8 0 0))) = UP
   \<and> current_direction (snd (projr (handle_event no_readings (KEYUP K_a) game_left_held))) = LEFT
   \<and> current_direction (projr (iteration world_8x8 first_input (initial world_8x8 0 0))) = UP
   \<and> current_direction (projr (handle_events
       [(KEYDOWN K_w, no_readings), (KEYDOWN K_d, no_readings), (KEYUP K_w, no_readings)]
       (initial world_8x8 0 0))) = RIGHT
   \<and> spec_effective [KEYDOWN K_w, KEYDOWN K_d, KEYUP K_w] UP = RIGHT
   \<and> current_direction (projr (run world_8x8 (initial world_8x8 0 0) crossing_inputs)) = UP
   \<and> spec_effective (key_history crossing_inputs) UP = UP"
proof -
  let ?g = "initial world_8x8 0 0"
  have nr: "RIGHT \<notin> set (direction ?g)" by (simp add: initial_def)
  from current_direction_latest_held_or_last_released
         [of ?g no_readings no_readings no_readings] nr
  obtain g' where "handle_events
       [(KEYDOWN K_w, no_readings), (KEYDOWN K_d, no_readings), (KEYUP K_d, no_readings)] ?g = Inr g'"
    and "current_direction g' = UP" by blast
  then have a: "current_direction (projr (handle_events
       [(KEYDOWN K_w, no_readings), (KEYDOWN K_d, no_readings), (KEYUP K_d, no_readings)] ?g)) = UP"
    by simp
  have rel: "handle_event no_readings (KEYUP K_a) game_left_held
               = Inr (False, game_left_held\<lparr>direction := [], last_direction := LEFT\<rparr>)"
    by (simp add: release_def game_left_held_def initial_def)
  have b: "current_direction (snd (projr (handle_event no_readings (KEYUP K_a) game_left_held))) = LEFT"
    unfolding rel
    using current_direction_latest_held_or_last_released
         [of game_left_held _ _ _ K_a LEFT no_readings False
             "game_left_held\<lparr>direction := [], last_direction := LEFT\<rparr>"] rel
    by simp
  have c: "current_direction (projr (iteration world_8x8 first_input ?g)) = UP"
    unfolding first_iteration
    using current_direction_latest_held_or_last_released
         [of ?g _ _ _ _ _ _ _ _ first_input world_8x8
             "?g\<lparr>snake := [(4, 3), (4, 4), (4, 5), (4, 6)], food := {(3, 3)},
                  next_food := 3 / 2, next_frame := 1 / 16\<rparr>"] first_iteration
    by (simp add: first_input_def) (simp add: initial_def)
  let ?ers = "[(KEYDOWN K_w, no_readings), (KEYDOWN K_d, no_readings), (KEYUP K_w, no_readings)]"
  have e1: "direction ?g = []" and e0: "last_direction ?g = UP" by (simp_all add: initial_def)
  have e2: "disciplined_from [] (map fst ?ers)" by (simp add: history_defs)
  have s1: "spec_effective [KEYDOWN K_w, KEYDOWN K_d, KEYUP K_w] UP = RIGHT"
    by (simp add: history_defs)
  from current_direction_latest_held_or_last_released [where g = ?g and ers = ?ers] e1 e2
  obtain g' where "handle_events ?ers ?g = Inr g'"
    and "current_direction g' = spec_effective (map fst ?ers) (last_direction ?g)"
    by blast
  then have a2: "current_direction (projr (handle_events ?ers ?g)) = RIGHT"
    using s1 e0 by simp
  have r1: "running game_at_edge" by (simp add: game_at_edge_def initial_def)
  have r2: "disciplined_from [] (key_history crossing_inputs)"
    by (simp add: history_defs crossing_inputs_def pass_at_def)
  have s2: "spec_effective (key_history crossing_inputs) UP = UP"
    by (simp add: history_defs crossing_inputs_def pass_at_def)
  from current_direction_latest_held_or_last_released
         [where w = world_8x8 and t_food = 0 and t_frame = 0 and inps = crossing_inputs
            and ?g3.0 = game_at_edge] run_crossing r1 r2
  have "current_direction game_at_edge = spec_effective (key_history crossing_inputs) UP"
    by blast
  then have b2: "current_direction (projr (run world_8x8 ?g crossing_inputs)) = UP"
    unfolding run_crossing using s2 by simp
  from a b c a2 s1 b2 s2 show ?thesis by blast
qed

subsection \<open>Food and the frame deadline\<close>










subsection \<open>Invariants of the loop\<close>

lemma run_invariant:
  assumes "\<And>inp g g'. P g \<Longrightarrow> running g \<Longrightarrow> iteration w inp g = Inr g' \<Longrightarrow> P g'"
  shows "P g \<Longrightarrow> run w g inps = Inr g' \<Longrightarrow> P g'"
proof (induction inps arbitrary: g)
  case Nil
  then show ?case by simp
next
  case (Cons inp inps)
  show ?case
  proof (cases "running g")
    case False
    with Cons.prems show ?thesis by simp
  next
    case True
    with Cons.prems(2) obtain g1 where it: "iteration w inp g = Inr g1"
      and rest: "run w g1 inps = Inr g'"
      by (auto split: sum.splits)
    from assms [OF Cons.prems(1) True it] have "P g1" .
    from Cons.IH [OF this rest] show ?thesis .
  qed
qed

lemma advance_spare:
  "advance w d s sp = Inr res \<Longrightarrow> 0 \<le> sp \<Longrightarrow> 0 \<le> spare res"
  by (auto simp: advance_eq split: if_splits)

lemma eat_spare_parts: "spare_parts g \<le> spare_parts (eat g)"
  by (simp add: eat_def PARTS_AFTER_FOOD_def)

lemma update_snake_spare_parts:
  assumes "update_snake w g = Inr g'" and "0 \<le> spare_parts g"
  shows "0 \<le> spare_parts g'"
  using assms(1)
proof (cases rule: update_snake_cases)
  case (1 res)
  from advance_spare [OF 1(1) assms(2)]
    eat_spare_parts [of "g\<lparr>snake := body res, spare_parts := spare res\<rparr>"]
  show ?thesis unfolding 1(3) by simp
next
  case (2 res)
  with assms(2) show ?thesis by simp
qed

lemma iteration_spare_parts:
  assumes "0 \<le> spare_parts g" and "iteration w inp g = Inr g'"
  shows "0 \<le> spare_parts g'"
  using assms(2)
proof (cases rule: iteration_cases)
  case (1 g1)
  with handle_events_keeps [of "events inp" g g1] assms(1) show ?thesis by simp
next
  case (2 g1)
  with handle_events_keeps [of "events inp" g g1] assms(1) show ?thesis
    by (simp add: spawn_food_def)
next
  case (3 g1)
  from handle_events_keeps [OF 3(1)] assms(1)
  have "0 \<le> spare_parts ((spawn_food inp g1)\<lparr>next_frame := next_frame (spawn_food inp g1) + interval\<rparr>)"
    by (simp add: spawn_food_def)
  from update_snake_spare_parts [OF 3(2) this] show ?thesis .
qed

text \<open>
  C9. In every state the loop reaches from the initial state, \<open>spare_parts\<close> is not
  negative.
\<close>

theorem spare_parts_never_negative:
  assumes "run w (initial w t_food t_frame) inps = Inr g"
  shows "0 \<le> spare_parts g"
proof -
  have "0 \<le> spare_parts (initial w t_food t_frame)" by (simp add: initial_def)
  from run_invariant [where P = "\<lambda>g. 0 \<le> spare_parts g", OF _ this assms]
    iteration_spare_parts
  show ?thesis by blast
qed

lemma run_eating:
  "run world_8x8 (initial world_8x8 0 0) [eating_input, next_frame_input]
     = Inr ((initial world_8x8 0 0)\<lparr>snake := [(4, 2), (4, 3), (4, 4), (4, 5), (4, 6)],
                                      spare_parts := 2,
                                      next_food := 3 / 2,
                                      next_frame := 1 / 8\<rparr>)"
  by (simp add: eval_defs eating_input_def next_frame_input_def upt_4)

theorem spare_parts_never_negative_witness:
  "0 \<le> spare_parts (projr (run world_8x8 (initial world_8x8 0 0) [eating_input, next_frame_input]))
   \<and> spare_parts (projr (run world_8x8 (initial world_8x8 0 0) [eating_input, next_frame_input])) = 2"
  unfolding run_eating
  using spare_parts_never_negative [OF run_eating]
  by simp

lemma looped_head_in_grid:
  "0 < world_width w \<Longrightarrow> 0 < world_height w \<Longrightarrow> in_grid w (looped_head w d s)"
  by (simp add: in_grid_def looped_head_def)

lemma advance_in_grid:
  assumes "advance w d s sp = Inr res" and "alive res" and "list_all (in_grid w) s"
  shows "list_all (in_grid w) (body res)"
proof -
  from assms(1,2) have ne: "s \<noteq> []" and pos: "0 < world_width w" "0 < world_height w"
    and b: "body res = looped_head w d s # butlast s @ [last s]
            \<or> body res = looped_head w d s # butlast s"
    by (auto simp: advance_eq split: if_splits)
  from assms(3) have bl: "list_all (in_grid w) (butlast s)"
    by (auto simp: list_all_iff dest: in_set_butlastD)
  from assms(3) ne have l: "in_grid w (last s)"
    by (simp add: list_all_iff)
  from b bl l looped_head_in_grid [OF pos] show ?thesis by auto
qed

lemma advance_head:
  assumes "advance w d s sp = Inr res" and "alive res"
  shows "in_grid w (body res ! 0)"
  using assms by (auto simp: advance_eq looped_head_in_grid split: if_splits)

lemma eat_snake: "snake (eat g) = snake g" "running (eat g) = running g"
  by (simp_all add: eat_def)

lemma update_snake_in_grid:
  assumes "update_snake w g = Inr g'" and "list_all (in_grid w) (snake g)" and "running g'"
  shows "list_all (in_grid w) (snake g')"
  using assms(1)
proof (cases rule: update_snake_cases)
  case (1 res)
  from advance_in_grid [OF 1(1,2) assms(2)] show ?thesis
    unfolding 1(3) by (simp add: eat_snake)
next
  case (2 res)
  with assms(3) show ?thesis by simp
qed

lemma iteration_in_grid:
  assumes "list_all (in_grid w) (snake g)" and "iteration w inp g = Inr g'" and "running g'"
  shows "list_all (in_grid w) (snake g')"
  using assms(2)
proof (cases rule: iteration_cases)
  case (1 g1)
  with handle_events_keeps [of "events inp" g g1] assms(1) show ?thesis by simp
next
  case (2 g1)
  with handle_events_keeps [of "events inp" g g1] assms(1) show ?thesis
    by (simp add: spawn_food_def)
next
  case (3 g1)
  from handle_events_keeps [OF 3(1)] assms(1)
  have "list_all (in_grid w)
          (snake ((spawn_food inp g1)\<lparr>next_frame := next_frame (spawn_food inp g1) + interval\<rparr>))"
    by (simp add: spawn_food_def)
  from update_snake_in_grid [OF 3(2) this assms(3)] show ?thesis .
qed

lemma beyond_grid_not_in_grid: "beyond_grid w c \<Longrightarrow> in_grid w c' \<Longrightarrow> c \<noteq> c'"
  by (auto simp: beyond_grid_def in_grid_def)

lemma update_snake_keeps_food:
  assumes "update_snake w g = Inr g'" and "c \<in> food g" and "beyond_grid w c"
  shows "c \<in> food g'"
  using assms(1)
proof (cases rule: update_snake_cases)
  case (1 res)
  from beyond_grid_not_in_grid [OF assms(3) advance_head [OF 1(1,2)]]
  have "c \<noteq> body res ! 0" .
  with assms(2) show ?thesis unfolding 1(3) by (simp add: eat_def)
next
  case (2 res)
  with assms(2) show ?thesis by simp
qed

lemma iteration_keeps_food:
  assumes "c \<in> food g" and "beyond_grid w c" and "iteration w inp g = Inr g'"
  shows "c \<in> food g'"
  using assms(3)
proof (cases rule: iteration_cases)
  case (1 g1)
  with handle_events_keeps [of "events inp" g g1] assms(1) show ?thesis by simp
next
  case (2 g1)
  with handle_events_keeps [of "events inp" g g1] assms(1) show ?thesis
    by (simp add: spawn_food_def)
next
  case (3 g1)
  from handle_events_keeps [OF 3(1)] assms(1)
  have "c \<in> food ((spawn_food inp g1)\<lparr>next_frame := next_frame (spawn_food inp g1) + interval\<rparr>)"
    by (simp add: spawn_food_def)
  from update_snake_keeps_food [OF 3(2) this assms(2)] show ?thesis .
qed

text \<open>
  C10. If the initial body lies within the grid, then in every state the loop reaches
  with the game still running, every cell of the body lies in
  [0, world_width) x [0, world_height); and a food cell with x = world_width or
  y = world_height, once in the food set, is in it after any further passes.
\<close>

theorem body_in_grid_and_edge_food_stays:
  assumes "run w (initial w t_food t_frame) inps = Inr g"
    and "list_all (in_grid w) (snake (initial w t_food t_frame))"
  shows "(running g \<longrightarrow> list_all (in_grid w) (snake g))
       \<and> (\<forall>c more g'. c \<in> food g
              \<and> (fst c = int (world_width w) \<or> snd c = int (world_height w))
              \<and> run w g more = Inr g' \<longrightarrow> c \<in> food g')"
proof -
  have "running (initial w t_food t_frame) \<longrightarrow> list_all (in_grid w) (snake (initial w t_food t_frame))"
    using assms(2) by simp
  from run_invariant [where P = "\<lambda>g. running g \<longrightarrow> list_all (in_grid w) (snake g)", OF _ this assms(1)]
    iteration_in_grid
  have a: "running g \<longrightarrow> list_all (in_grid w) (snake g)" by blast
  have b: "c \<in> food g'" if "c \<in> food g" and "beyond_grid w c" and "run w g more = Inr g'"
    for c more g'
    using run_invariant [where P = "\<lambda>g. c \<in> food g", OF _ that(1) that(3)]
      iteration_keeps_food [OF _ that(2)]
    by blast
  from a b show ?thesis unfolding beyond_grid_def by blast
qed

lemma run_edge_food_1:
  "run world_8x8 (initial world_8x8 0 0) [edge_food_input]
     = Inr ((initial world_8x8 0 0)\<lparr>snake := [(4, 3), (4, 4), (4, 5), (4, 6)],
                                      food := {(8, 3)},
                                      next_food := 3 / 2,
                                      next_frame := 1 / 16\<rparr>)"
  by (simp add: eval_defs edge_food_input_def upt_4)

lemma run_edge_food_2:
  "run world_8x8
     ((initial world_8x8 0 0)\<lparr>snake := [(4, 3), (4, 4), (4, 5), (4, 6)],
                              food := {(8, 3)},
                              next_food := 3 / 2,
                              next_frame := 1 / 16\<rparr>) [next_frame_input]
     = Inr ((initial world_8x8 0 0)\<lparr>snake := [(4, 2), (4, 3), (4, 4), (4, 5)],
                                      food := {(8, 3)},
                                      next_food := 3 / 2,
                                      next_frame := 1 / 8\<rparr>)"
  by (simp add: eval_defs next_frame_input_def upt_4)

theorem body_in_grid_and_edge_food_stays_witness:
  "randint_ok world_8x8 edge_food_input
   \<and> list_all (in_grid world_8x8)
     (snake (projr (run world_8x8 (initial world_8x8 0 0) [edge_food_input])))
   \<and> (8, 3) \<in> food (projr (run world_8x8 (initial world_8x8 0 0) [edge_food_input]))
   \<and> (8, 3) \<in> food (projr (run world_8x8
        (projr (run world_8x8 (initial world_8x8 0 0) [edge_food_input])) [next_frame_input]))"
proof -
  have i: "list_all (in_grid world_8x8) (snake (initial world_8x8 0 0))"
    by (simp add: initial_def in_grid_def world_8x8_def upt_4 INITIAL_LENGTH_def)
  note t = body_in_grid_and_edge_food_stays [OF run_edge_food_1 i]
  from t have a: "list_all (in_grid world_8x8) (snake (projr (run world_8x8 (initial world_8x8 0 0) [edge_food_input])))"
    unfolding run_edge_food_1 by (simp add: initial_def)
  have b: "(8, 3) \<in> food (projr (run world_8x8 (initial world_8x8 0 0) [edge_food_input]))"
    unfolding run_edge_food_1 by simp
  let ?g1 = "(initial world_8x8 0 0)\<lparr>snake := [(4, 3), (4, 4), (4, 5), (4, 6)],
               food := {(8, 3)}, next_food := 3 / 2, next_frame := 1 / 16\<rparr>"
  let ?g2 = "(initial world_8x8 0 0)\<lparr>snake := [(4, 2), (4, 3), (4, 4), (4, 5)],
               food := {(8, 3)}, next_food := 3 / 2, next_frame := 1 / 8\<rparr>"
  from t have "(8, 3) \<in> food ?g1
      \<and> (fst ((8, 3) :: cell) = int (world_width world_8x8)
          \<or> snd ((8, 3) :: cell) = int (world_height world_8x8))
      \<and> run world_8x8 ?g1 [next_frame_input] = Inr ?g2 \<longrightarrow> (8, 3) \<in> food ?g2"
    by blast
  moreover have "(8, 3) \<in> food ?g1" by simp
  moreover have "fst ((8, 3) :: cell) = int (world_width world_8x8)" by (simp add: world_8x8_def)
  ultimately have "(8, 3) \<in> food ?g2" using run_edge_food_2 by blast
  then have c: "(8, 3) \<in> food (projr (run world_8x8
        (projr (run world_8x8 (initial world_8x8 0 0) [edge_food_input])) [next_frame_input]))"
    unfolding run_edge_food_1 sum.sel run_edge_food_2 by simp
  have d: "randint_ok world_8x8 edge_food_input"
    by (simp add: randint_ok_def world_8x8_def edge_food_input_def)
  from a b c d show ?thesis by blast
qed

subsection \<open>A collision across the edge\<close>

text \<open>
  C1 against the code. The count of line 177 is taken on the head before the modulo of
  line 182. After the eight frames of \<open>crossing_inputs\<close> the head is at (7, 3), at the
  right edge of a world 8 cells wide, and the fourth cell of the body is (0, 3), just
  across the edge. The ninth frame moves RIGHT: the head becomes (8, 3), which no cell
  of the body equals, so the update reports the snake alive, and only then is the head
  reduced to (0, 3). The loop goes on with the head on the cell of its fifth segment.
\<close>

theorem collision_across_edge_missed:
  "run world_8x8 (initial world_8x8 0 0) (crossing_inputs @ [pass_at (8 / 16) [KEYDOWN K_d]])
     = Inr game_after_crossing
   \<and> advance world_8x8 RIGHT (snake game_at_edge) (spare_parts game_at_edge)
     = Inr \<lparr>alive = True, body = snake game_after_crossing, spare = 0\<rparr>
   \<and> running game_after_crossing
   \<and> snake game_after_crossing ! 0 = (0, 3)
   \<and> snake game_after_crossing ! 4 = (0, 3)"
  by (simp add: eval_defs crossing_inputs_def pass_at_def release_def game_at_edge_def
      game_after_crossing_def upt_4)

end
